theory Spec2Isabelle
  imports Main
begin

section \<open>Path patterns: the compiled regular expressions of \<open>watch.py\<close>\<close>

text \<open>
  The watcher of \<open>otree_redwood/firebase/watch.py\<close> routes the paths of Firebase
  change events with Python regular expressions. The built-in pattern \<open>_DECISION_RE\<close>
  is a concatenation of literal text and named groups \<open>(?P<name>.*)\<close>. A compiled
  pattern of that shape is a list of items; \<open>Named n\<close> is the group \<open>(?P<n>.*)\<close>.
\<close>

datatype re_item = Lit string | Named string

text \<open>
  \<open>match.groupdict()\<close>: the named groups of a match with the text each one
  captured, in the order of the groups.
\<close>

type_synonym groupdict = "(string \<times> string) list"

text \<open>The line feed, the one character that \<open>.\<close> does not match (no \<open>DOTALL\<close> flag).\<close>

definition newline :: char where
  "newline = CHR 0x0A"

text \<open>How far \<open>.*\<close> can reach from the start of \<open>s\<close>: up to the first line feed.\<close>

definition dot_run :: "string \<Rightarrow> nat" where
  "dot_run s = length (takeWhile (\<lambda>c. c \<noteq> newline) s)"

text \<open>The first alternative that succeeds, in the order in which they are tried.\<close>

fun first_some :: "('a \<Rightarrow> 'b option) \<Rightarrow> 'a list \<Rightarrow> 'b option" where
  "first_some f [] = None"
| "first_some f (k # ks) = (case f k of Some r \<Rightarrow> Some r | None \<Rightarrow> first_some f ks)"

text \<open>
  \<open>regex.match(s)\<close>: the pattern is matched at the start of \<open>s\<close> and need not reach
  its end. A literal must be the next text. A group \<open>.*\<close> is greedy: it first takes
  every character up to the line feed, and gives characters back one at a time while the
  rest of the pattern fails (backtracking); the first success is the match.
\<close>

primrec re_match :: "re_item list \<Rightarrow> string \<Rightarrow> groupdict option" where
  "re_match [] s = Some []"
| "re_match (x # p) s =
     (case x of
        Lit l \<Rightarrow>
          if take (length l) s = l then re_match p (drop (length l) s) else None
      | Named n \<Rightarrow>
          first_some
            (\<lambda>k. case re_match p (drop k s) of
                   None \<Rightarrow> None
                 | Some g \<Rightarrow> Some ((n, take k s) # g))
            (rev [0..<Suc (dot_run s)]))"

text \<open>The pattern of decision paths, \<open>_DECISION_RE\<close>.\<close>

definition DECISION_RE :: "re_item list" where
  "DECISION_RE =
     [Lit ''/session/'', Named ''session'',
      Lit ''/app/'', Named ''app'',
      Lit ''/subsession/'', Named ''subsession'',
      Lit ''/round/'', Named ''round'',
      Lit ''/group/'', Named ''group'',
      Lit ''/component/'', Named ''component'',
      Lit ''/decisions/'', Named ''participant_code'']"

text \<open>
  The text of a path: the literals of a pattern with one value for each group, in order.
  A group without a value is left empty.
\<close>

fun build :: "re_item list \<Rightarrow> string list \<Rightarrow> string" where
  "build [] vs = []"
| "build (Lit l # p) vs = l @ build p vs"
| "build (Named n # p) [] = build p []"
| "build (Named n # p) (v # vs) = v @ build p vs"

text \<open>The names of the groups of a pattern, and the separators its literals hold.\<close>

fun group_names :: "re_item list \<Rightarrow> string list" where
  "group_names [] = []"
| "group_names (Lit l # p) = group_names p"
| "group_names (Named n # p) = n # group_names p"

fun lit_seps :: "re_item list \<Rightarrow> nat" where
  "lit_seps [] = 0"
| "lit_seps (Lit l # p) = count_list l (CHR ''/'') + lit_seps p"
| "lit_seps (Named n # p) = lit_seps p"

text \<open>
  A path template: every group is the last item or is followed by a literal that starts
  with the separator.
\<close>

fun template :: "re_item list \<Rightarrow> bool" where
  "template [] = True"
| "template (Lit l # p) = template p"
| "template [Named n] = True"
| "template (Named n # Lit l # p) = (l \<noteq> [] \<and> hd l = CHR ''/'' \<and> template p)"
| "template (Named n # Named m # p) = False"

text \<open>A pattern whose last item is a group: that group takes the rest of the line.\<close>

fun ends_with_group :: "re_item list \<Rightarrow> bool" where
  "ends_with_group [] = False"
| "ends_with_group [Named n] = True"
| "ends_with_group [Lit l] = False"
| "ends_with_group (x # y # p) = ends_with_group (y # p)"

section \<open>Events, records and the state of the process\<close>

text \<open>
  The value \<open>json.loads\<close> returns. An object is the list of the items of the
  resulting \<open>dict\<close> (its keys are distinct). A float is given by mantissa and
  binary exponent; the watcher never looks inside a number.
\<close>

datatype json =
    JNull
  | JBool bool
  | JInt int
  | JFloat int int
  | JStr string
  | JArr "json list"
  | JObj "(string \<times> json) list"

text \<open>The exceptions that can leave a function of the module.\<close>

datatype exn =
    NameError
  | ValueError
  | KeyError string
  | TypeError
  | ReError
  | ParticipantDoesNotExist
  | SaveError nat
  | HandlerError nat

text \<open>One message of the server-sent event stream: \<open>msg.event\<close> and \<open>msg.data\<close>.\<close>

record msg =
  event :: string
  data :: string

text \<open>
  The \<open>Decision\<close> object as \<open>_handleDecisionEvent\<close> has filled it when it calls
  \<open>save\<close>. Sessions and participants are named by their primary keys;
  \<open>d_subsession\<close> is \<open>None\<close> when the attribute was never assigned.
\<close>

record decision =
  d_component :: string
  d_session :: nat
  d_subsession :: "int option"
  d_round :: int
  d_group :: int
  d_participant :: nat
  d_app :: string
  d_value :: json

text \<open>
  Handler functions are named: the built-in \<open>_handleDecisionEvent\<close> and the functions
  that other modules pass to \<open>register_path\<close>.
\<close>

datatype handler = HandleDecisionEvent | UserHandler nat

text \<open>
  A compiled pattern is used through its \<open>match\<close> method only; the match object is
  represented by its \<open>groupdict()\<close>.
\<close>

type_synonym regex = "string \<Rightarrow> groupdict option"

text \<open>
  The \<open>Thread\<close> object (its attribute \<open>decisions\<close> is never read and is left out);
  \<open>started\<close> records the call of \<open>threading.Thread.start\<close>.
\<close>

record thread =
  fbURL :: string
  daemon :: bool
  started :: bool
  matchers :: "(regex \<times> handler) list"

text \<open>
  The state of the process: the module global \<open>_watchThread\<close> (\<open>None\<close> while the
  name is unbound) refers to a thread object of the store \<open>threads\<close>; the tables of
  sessions and participants by code (a code names at most one row, so
  \<open>objects.get(code=...)\<close> returns that row or raises \<open>DoesNotExist\<close>); and
  the calls of \<open>Decision.save\<close> made so far, in order.
\<close>

record world =
  watchThread :: "nat option"
  threads :: "nat \<Rightarrow> thread"
  next_thread :: nat
  sessions :: "string \<Rightarrow> nat option"
  participants :: "string \<Rightarrow> nat option"
  save_calls :: "decision list"

text \<open>
  What the module takes from outside: \<open>json.loads\<close> (\<open>None\<close>: it raises
  \<open>ValueError\<close>), \<open>int\<close> on a string (\<open>None\<close>: \<open>ValueError\<close>), the outcome of
  \<open>Decision.save\<close> (\<open>Some e\<close>: it raises \<open>e\<close>), and the registered handler
  functions, which may change the state and may raise.
\<close>

record env =
  json_loads :: "string \<Rightarrow> json option"
  py_int :: "string \<Rightarrow> int option"
  db_save :: "decision \<Rightarrow> world \<Rightarrow> exn option"
  user_handler :: "nat \<Rightarrow> groupdict \<Rightarrow> json \<Rightarrow> world \<Rightarrow> exn option \<times> world"

section \<open>The functions of the module\<close>

text \<open>\<open>Thread.__init__\<close>: the registry starts with the decision pattern alone.\<close>

definition Thread_init :: "string \<Rightarrow> thread" where
  "Thread_init url =
     \<lparr>fbURL = url, daemon = False, started = False,
      matchers = [(re_match DECISION_RE, HandleDecisionEvent)]\<rparr>"

text \<open>\<open>start()\<close>: a new thread object is bound to \<open>_watchThread\<close> and started.\<close>

definition start :: "world \<Rightarrow> world" where
  "start w =
     (let r = next_thread w;
          t = (Thread_init ''https://otree.firebaseio.com/.json'')
                \<lparr>daemon := True, started := True\<rparr>
      in w\<lparr>watchThread := Some r, threads := (threads w)(r := t), next_thread := Suc r\<rparr>)"

text \<open>
  \<open>register_path(path, handlerFunction)\<close>. The global is read first (\<open>NameError\<close>
  while it is unbound), then \<open>re.compile(path)\<close> is evaluated (\<open>None\<close>: it raises
  \<open>re.error\<close>), then the pair is appended.
\<close>

definition register_path ::
  "(string \<Rightarrow> regex option) \<Rightarrow> string \<Rightarrow> handler \<Rightarrow> world \<Rightarrow> exn + world" where
  "register_path re_compile path handlerFunction w =
     (case watchThread w of
        None \<Rightarrow> Inl NameError
      | Some r \<Rightarrow>
          (case re_compile path of
             None \<Rightarrow> Inl ReError
           | Some regex \<Rightarrow>
               Inr (w\<lparr>threads := (threads w)
                       (r := (threads w r)
                          \<lparr>matchers := matchers (threads w r) @ [(regex, handlerFunction)]\<rparr>)\<rparr>)))"

text \<open>
  \<open>_handleDecisionEvent(match, data)\<close>. A missing key of \<open>g\<close> raises \<open>KeyError\<close>;
  \<open>Session.DoesNotExist\<close> is caught and the function returns; \<open>ValueError\<close> is
  caught for the subsession only.
\<close>

definition handleDecisionEvent ::
  "env \<Rightarrow> groupdict \<Rightarrow> json \<Rightarrow> world \<Rightarrow> exn option \<times> world" where
  "handleDecisionEvent env g dat w =
     (case map_of g ''component'' of
        None \<Rightarrow> (Some (KeyError ''component''), w)
      | Some compo \<Rightarrow>
     (case map_of g ''session'' of
        None \<Rightarrow> (Some (KeyError ''session''), w)
      | Some scode \<Rightarrow>
     (case sessions w scode of
        None \<Rightarrow> (None, w)
      | Some sess \<Rightarrow>
     (case map_of g ''subsession'' of
        None \<Rightarrow> (Some (KeyError ''subsession''), w)
      | Some sub \<Rightarrow>
     (case map_of g ''round'' of
        None \<Rightarrow> (Some (KeyError ''round''), w)
      | Some rnd \<Rightarrow>
     (case py_int env rnd of
        None \<Rightarrow> (Some ValueError, w)
      | Some rnd_i \<Rightarrow>
     (case map_of g ''group'' of
        None \<Rightarrow> (Some (KeyError ''group''), w)
      | Some grp \<Rightarrow>
     (case py_int env grp of
        None \<Rightarrow> (Some ValueError, w)
      | Some grp_i \<Rightarrow>
     (case map_of g ''participant_code'' of
        None \<Rightarrow> (Some (KeyError ''participant_code''), w)
      | Some pcode \<Rightarrow>
     (case participants w pcode of
        None \<Rightarrow> (Some ParticipantDoesNotExist, w)
      | Some part \<Rightarrow>
     (case map_of g ''app'' of
        None \<Rightarrow> (Some (KeyError ''app''), w)
      | Some ap \<Rightarrow>
       (let d = \<lparr>d_component = compo, d_session = sess, d_subsession = py_int env sub,
                  d_round = rnd_i, d_group = grp_i, d_participant = part,
                  d_app = ap, d_value = dat\<rparr>
        in (db_save env d w, w\<lparr>save_calls := save_calls w @ [d]\<rparr>)))))))))))))"

text \<open>The call \<open>f(match, data)\<close> of a registered handler function.\<close>

definition invoke ::
  "env \<Rightarrow> handler \<Rightarrow> groupdict \<Rightarrow> json \<Rightarrow> world \<Rightarrow> exn option \<times> world" where
  "invoke env f m d w =
     (case f of
        HandleDecisionEvent \<Rightarrow> handleDecisionEvent env m d w
      | UserHandler n \<Rightarrow> user_handler env n m d w)"

text \<open>
  \<open>message_payload[k]\<close>: \<open>KeyError\<close> when a dict lacks the key, \<open>TypeError\<close>
  when the payload is not a dict (a list, a string, a number, \<open>None\<close>).
\<close>

definition subscript :: "json \<Rightarrow> string \<Rightarrow> exn + json" where
  "subscript v k =
     (case v of
        JObj kvs \<Rightarrow> (case map_of kvs k of None \<Rightarrow> Inl (KeyError k) | Some x \<Rightarrow> Inr x)
      | _ \<Rightarrow> Inl TypeError)"

text \<open>
  What the loop of \<open>Thread.run\<close> does that can be observed: its log records and its
  calls of handler functions, in order.
\<close>

datatype action =
    LogInfo string
  | Invoke handler groupdict json
  | LogWarning json
  | LogException json exn

text \<open>
  The first inner loop of \<open>run\<close>: the registry is walked in order and every match is
  appended to \<open>matches\<close>. \<open>regex.match\<close> raises \<open>TypeError\<close> when the path is
  not a string.
\<close>

fun collect ::
  "(regex \<times> handler) list \<Rightarrow> json \<Rightarrow> (handler \<times> groupdict \<times> json) list \<Rightarrow>
   exn + (handler \<times> groupdict \<times> json) list" where
  "collect [] payload matches = Inr matches"
| "collect ((regex, handlerFunc) # rest) payload matches =
     (case subscript payload ''path'' of
        Inl e \<Rightarrow> Inl e
      | Inr p \<Rightarrow>
          (case p of
             JStr path \<Rightarrow>
               (case regex path of
                  None \<Rightarrow> collect rest payload matches
                | Some m \<Rightarrow>
                    (case subscript payload ''data'' of
                       Inl e \<Rightarrow> Inl e
                     | Inr d \<Rightarrow> collect rest payload (matches @ [(handlerFunc, m, d)])))
           | _ \<Rightarrow> Inl TypeError))"

text \<open>
  The second inner loop: each collected handler is called inside \<open>try\<close>; the bare
  \<open>except\<close> logs the exception with \<open>message_payload['path']\<close>.
\<close>

fun dispatch ::
  "env \<Rightarrow> json \<Rightarrow> (handler \<times> groupdict \<times> json) list \<Rightarrow> world \<Rightarrow>
   exn option \<times> action list \<times> world" where
  "dispatch env payload [] w = (None, [], w)"
| "dispatch env payload ((f, m, d) # rest) w =
     (case invoke env f m d w of
        (None, w') \<Rightarrow>
          (case dispatch env payload rest w' of
             (r, tr, w'') \<Rightarrow> (r, Invoke f m d # tr, w''))
      | (Some e, w') \<Rightarrow>
          (case subscript payload ''path'' of
             Inl e' \<Rightarrow> (Some e', [Invoke f m d], w')
           | Inr p \<Rightarrow>
               (case dispatch env payload rest w' of
                  (r, tr, w'') \<Rightarrow> (r, Invoke f m d # LogException p e # tr, w''))))"

text \<open>
  The body of \<open>if msg.event == 'put'\<close> for the thread object \<open>self\<close>. The result
  holds the exception that leaves the body, if any.
\<close>

definition process_put ::
  "env \<Rightarrow> nat \<Rightarrow> string \<Rightarrow> world \<Rightarrow> exn option \<times> action list \<times> world" where
  "process_put env self dat w =
     (case json_loads env dat of
        None \<Rightarrow> (Some ValueError, [], w)
      | Some message_payload \<Rightarrow>
          (case collect (matchers (threads w self)) message_payload [] of
             Inl e \<Rightarrow> (Some e, [], w)
           | Inr matches \<Rightarrow>
               (case (if length matches = 0
                      then (case subscript message_payload ''path'' of
                              Inl e \<Rightarrow> Inl e
                            | Inr p \<Rightarrow> Inr [LogWarning p])
                      else Inr []) of
                  Inl e \<Rightarrow> (Some e, [], w)
                | Inr warned \<Rightarrow>
                    (case dispatch env message_payload matches w of
                       (r, tr, w') \<Rightarrow> (r, warned @ tr, w')))))"

text \<open>
  \<open>for msg in messages\<close>, over the messages the stream delivers. An exception that
  leaves the body ends the loop, and with it \<open>run\<close> and the thread.
\<close>

fun run_loop ::
  "env \<Rightarrow> nat \<Rightarrow> msg list \<Rightarrow> world \<Rightarrow> exn option \<times> action list \<times> world" where
  "run_loop env self [] w = (None, [], w)"
| "run_loop env self (m # messages) w =
     (if event m = ''put'' then
        (case process_put env self (data m) w of
           (Some e, tr, w') \<Rightarrow> (Some e, tr, w')
         | (None, tr, w') \<Rightarrow>
             (case run_loop env self messages w' of
                (r, tr', w'') \<Rightarrow> (r, tr @ tr', w'')))
      else run_loop env self messages w)"

definition run ::
  "env \<Rightarrow> nat \<Rightarrow> msg list \<Rightarrow> world \<Rightarrow> exn option \<times> action list \<times> world" where
  "run env self messages w =
     (case run_loop env self messages w of
        (r, tr, w') \<Rightarrow> (r, LogInfo (fbURL (threads w self)) # tr, w'))"

text \<open>The handler calls among the actions of a run.\<close>

fun invocations :: "action list \<Rightarrow> (handler \<times> groupdict \<times> json) list" where
  "invocations [] = []"
| "invocations (Invoke f m d # tr) = (f, m, d) # invocations tr"
| "invocations (a # tr) = invocations tr"

section \<open>What the design document says, for comparison\<close>

text \<open>
  \<open>matchAll(path)\<close> of the registry as the design document words it: every
  registration whose pattern matches the path, in registration order, with its captures
  (and the data of the event, which the watcher passes along).
\<close>

definition matchAll_spec ::
  "(regex \<times> handler) list \<Rightarrow> string \<Rightarrow> json \<Rightarrow> (handler \<times> groupdict \<times> json) list" where
  "matchAll_spec registry path d =
     List.map_filter (\<lambda>(regex, h). map_option (\<lambda>g. (h, g, d)) (regex path)) registry"

text \<open>
  The dispatch of the design document: each matched handler is invoked in registration
  order with its captures and the data. \<open>handler_function\<close> is the function a
  handler name stands for; \<open>handlers_state_spec\<close> is the state after the handlers
  have run one after the other, each on the state the one before it left;
  \<open>handlers_trace_spec\<close> is what is to be observed meanwhile: every call, followed
  by a log record with the path when the call raised.
\<close>

definition handler_function ::
  "env \<Rightarrow> handler \<Rightarrow> groupdict \<Rightarrow> json \<Rightarrow> world \<Rightarrow> exn option \<times> world" where
  "handler_function env f =
     (case f of
        HandleDecisionEvent \<Rightarrow> handleDecisionEvent env
      | UserHandler n \<Rightarrow> user_handler env n)"

definition handlers_state_spec ::
  "env \<Rightarrow> (handler \<times> groupdict \<times> json) list \<Rightarrow> world \<Rightarrow> world" where
  "handlers_state_spec env ms w =
     foldl (\<lambda>w (f, g, d). snd (handler_function env f g d w)) w ms"

fun handlers_trace_spec ::
  "env \<Rightarrow> string \<Rightarrow> (handler \<times> groupdict \<times> json) list \<Rightarrow> world \<Rightarrow> action list" where
  "handlers_trace_spec env path [] w = []"
| "handlers_trace_spec env path ((f, g, d) # ms) w =
     Invoke f g d #
     (case fst (handler_function env f g d w) of
        None \<Rightarrow> []
      | Some e \<Rightarrow> [LogException (JStr path) e]) @
     handlers_trace_spec env path ms (snd (handler_function env f g d w))"

text \<open>
  The decision path of the design document with a value in the place of each capture.
\<close>

definition decision_path ::
  "string \<Rightarrow> string \<Rightarrow> string \<Rightarrow> string \<Rightarrow> string \<Rightarrow> string \<Rightarrow> string \<Rightarrow> string" where
  "decision_path s a ss r g c pc =
     ''/session/'' @ s @ ''/app/'' @ a @ ''/subsession/'' @ ss @ ''/round/'' @ r @
     ''/group/'' @ g @ ''/component/'' @ c @ ''/decisions/'' @ pc"

section \<open>A small deployment, for concrete runs\<close>

text \<open>The module right after import: \<open>_watchThread\<close> is unbound, nothing is stored.\<close>

definition initial_world :: world where
  "initial_world =
     \<lparr>watchThread = None, threads = (\<lambda>r. Thread_init []), next_thread = 0,
      sessions = Map.empty, participants = Map.empty, save_calls = []\<rparr>"

text \<open>
  \<open>re.compile\<close> on the patterns the examples register: text of letters, digits,
  \<open>/\<close> and \<open>_\<close> matches itself. Other patterns are not needed here.
\<close>

definition ex_compile :: "string \<Rightarrow> regex option" where
  "ex_compile p =
     (if \<forall>c\<in>set p. c \<in> set ''abcdefghijklmnopqrstuvwxyzABCDEFGHIJKLMNOPQRSTUVWXYZ0123456789/_''
      then Some (re_match [Lit p]) else None)"

text \<open>\<open>int\<close> on the strings of the examples: a non-empty run of decimal digits.\<close>

definition ex_int :: "string \<Rightarrow> int option" where
  "ex_int s =
     (if s \<noteq> [] \<and> (\<forall>c\<in>set s. c \<in> set ''0123456789'')
      then Some (int (foldl (\<lambda>a c. 10 * a + (of_char c - 48)) 0 s))
      else None)"

text \<open>
  The payloads of the examples as text, and \<open>json.loads\<close> on the messages of the
  examples: the three payloads decode to the values below; the one other text the
  examples send, \<open>not json\<close>, makes it raise.
\<close>

definition decision_event :: string where
  \<open>decision_event =
     ''{"path": "/session/S1/app/econ/subsession/1/round/2/group/3/component/chat/decisions/P1", "data": 7}''\<close>

definition other_event :: string where
  \<open>other_event = ''{"path": "/log/S1", "data": 7}''\<close>

definition pathless_event :: string where
  \<open>pathless_event = ''{"data": 7}''\<close>

definition ex_loads :: "string \<Rightarrow> json option" where
  "ex_loads s =
     (if s = decision_event then
        Some (JObj [(''path'', JStr
          ''/session/S1/app/econ/subsession/1/round/2/group/3/component/chat/decisions/P1''),
          (''data'', JInt 7)])
      else if s = other_event then
        Some (JObj [(''path'', JStr ''/log/S1''), (''data'', JInt 7)])
      else if s = pathless_event then
        Some (JObj [(''data'', JInt 7)])
      else None)"

text \<open>
  Handler functions of other modules: number 0 raises, number 2 registers number 3 for
  every path under \<open>/session/\<close> and returns, every other one just returns.
\<close>

definition ex_handler :: "nat \<Rightarrow> groupdict \<Rightarrow> json \<Rightarrow> world \<Rightarrow> exn option \<times> world" where
  "ex_handler n m d w =
     (if n = 0 then (Some (HandlerError 0), w)
      else if n = 2 then
        (case register_path ex_compile ''/session/'' (UserHandler 3) w of
           Inl e \<Rightarrow> (Some e, w)
         | Inr w' \<Rightarrow> (None, w'))
      else (None, w))"

definition ex_env :: env where
  "ex_env =
     \<lparr>json_loads = ex_loads, py_int = ex_int, db_save = (\<lambda>d w. None),
      user_handler = ex_handler\<rparr>"

text \<open>The same deployment with handler functions that do nothing.\<close>

definition quiet_env :: env where
  "quiet_env = ex_env\<lparr>user_handler := (\<lambda>n m d w. (None, w))\<rparr>"

text \<open>
  The watcher started with session \<open>S1\<close> in the database, with and without its
  participant \<open>P1\<close>.
\<close>

definition ex_world :: world where
  "ex_world = (start initial_world)\<lparr>sessions := [''S1'' \<mapsto> 1], participants := [''P1'' \<mapsto> 1]\<rparr>"

definition lonely_world :: world where
  "lonely_world = (start initial_world)\<lparr>sessions := [''S1'' \<mapsto> 1]\<rparr>"

text \<open>\<open>register_path\<close> in a state where it succeeds; the state is kept when it raises.\<close>

definition registered :: "string \<Rightarrow> handler \<Rightarrow> world \<Rightarrow> world" where
  "registered p h w =
     (case register_path ex_compile p h w of Inl e \<Rightarrow> w | Inr w' \<Rightarrow> w')"

section \<open>Properties of the matcher\<close>

lemma first_some_SomeD:
  "first_some f ks = Some r \<Longrightarrow> \<exists>k\<in>set ks. f k = Some r"
  by (induction ks) (auto split: option.splits)

lemma first_some_rev_upt:
  "j \<le> M \<Longrightarrow> f j = Some r \<Longrightarrow> (\<And>k. j < k \<Longrightarrow> k \<le> M \<Longrightarrow> f k = None)
   \<Longrightarrow> first_some f (rev [0..<Suc M]) = Some r"
proof (induction M)
  case 0
  then show ?case by simp
next
  case (Suc M)
  show ?case
  proof (cases "j = Suc M")
    case True
    with Suc.prems(2) show ?thesis by simp
  next
    case False
    with Suc.prems(1) have le: "j \<le> M" by simp
    from False Suc.prems(1) have "f (Suc M) = None"
      by (intro Suc.prems(3)) auto
    moreover have "first_some f (rev [0..<Suc M]) = Some r"
      using le Suc.prems(2) Suc.prems(3) by (intro Suc.IH) auto
    ultimately show ?thesis by simp
  qed
qed

lemma take_le_dot_run:
  "k \<le> dot_run s \<Longrightarrow> newline \<notin> set (take k s)"
proof -
  assume k: "k \<le> dot_run s"
  have "take k s = take k (takeWhile (\<lambda>c. c \<noteq> newline) s)"
    using k unfolding dot_run_def
    by (metis takeWhile_dropWhile_id take_append diff_is_0_eq' take_0 append_Nil2)
  then have "set (take k s) \<subseteq> set (takeWhile (\<lambda>c. c \<noteq> newline) s)"
    by (metis set_take_subset)
  then show ?thesis
    by (auto dest: set_takeWhileD)
qed

lemma dot_run_free:
  "newline \<notin> set v \<Longrightarrow> dot_run (v @ t) = length v + dot_run t"
  unfolding dot_run_def by (induction v) auto

lemma dot_run_le: "dot_run s \<le> length s"
  unfolding dot_run_def by (rule length_takeWhile_le)

lemma drop_dot_run: "drop (dot_run s) s = [] \<or> hd (drop (dot_run s) s) = newline"
  unfolding dot_run_def
  by (metis (mono_tags, lifting) dropWhile_eq_drop hd_dropWhile)

lemma re_match_Named:
  "re_match (Named n # p) s =
     first_some
       (\<lambda>k. case re_match p (drop k s) of
              None \<Rightarrow> None
            | Some g \<Rightarrow> Some ((n, take k s) # g))
       (rev [0..<Suc (dot_run s)])"
  by (simp del: upt_Suc)

lemma re_match_Lit:
  "re_match (Lit l # p) s =
     (if take (length l) s = l then re_match p (drop (length l) s) else None)"
  by simp

lemma re_match_last_Named:
  "re_match [Named n] s = Some [(n, take (dot_run s) s)]"
proof -
  have "first_some
       (\<lambda>k. case re_match [] (drop k s) of
              None \<Rightarrow> None
            | Some g \<Rightarrow> Some ((n, take k s) # g))
       (rev [0..<Suc (dot_run s)]) = Some [(n, take (dot_run s) s)]"
    by (rule first_some_rev_upt) auto
  then show ?thesis
    unfolding re_match_Named .
qed

lemma re_match_NamedD:
  assumes "re_match (Named n # p) s = Some g"
  obtains k g' where "k \<le> dot_run s" "re_match p (drop k s) = Some g'" "g = (n, take k s) # g'"
proof -
  from assms obtain k where k: "k \<in> set (rev [0..<Suc (dot_run s)])"
    and r: "(case re_match p (drop k s) of None \<Rightarrow> None | Some g' \<Rightarrow> Some ((n, take k s) # g')) = Some g"
    unfolding re_match_Named by (blast dest: first_some_SomeD)
  from r obtain g' where "re_match p (drop k s) = Some g'" "g = (n, take k s) # g'"
    by (auto split: option.splits)
  moreover from k have "k \<le> dot_run s" by auto
  ultimately show thesis using that by blast
qed

lemma re_match_sound:
  "re_match p s = Some g \<Longrightarrow>
   \<exists>rest. s = build p (map snd g) @ rest \<and> map fst g = group_names p \<and>
     (\<forall>v\<in>set (map snd g). newline \<notin> set v) \<and>
     (ends_with_group p \<longrightarrow> rest = [] \<or> hd rest = newline)"
proof (induction p arbitrary: s g)
  case Nil
  then show ?case by simp
next
  case (Cons x p)
  show ?case
  proof (cases x)
    case (Lit l)
    with Cons.prems have pre: "take (length l) s = l"
      and m: "re_match p (drop (length l) s) = Some g"
      by (auto split: if_splits)
    from Cons.IH [OF m] obtain rest where
      r: "drop (length l) s = build p (map snd g) @ rest" "map fst g = group_names p"
         "\<forall>v\<in>set (map snd g). newline \<notin> set v"
         "ends_with_group p \<longrightarrow> rest = [] \<or> hd rest = newline"
      by blast
    have "s = l @ drop (length l) s"
      using pre by (metis append_take_drop_id)
    with r(1) have "s = build (x # p) (map snd g) @ rest"
      using Lit by simp
    moreover have "ends_with_group (x # p) \<Longrightarrow> ends_with_group p"
      using Lit by (cases p) auto
    ultimately show ?thesis
      using r Lit by auto
  next
    case (Named n)
    with Cons.prems obtain k g' where k: "k \<le> dot_run s"
      and m: "re_match p (drop k s) = Some g'" and g: "g = (n, take k s) # g'"
      by (blast elim: re_match_NamedD)
    from Cons.IH [OF m] obtain rest where
      r: "drop k s = build p (map snd g') @ rest" "map fst g' = group_names p"
         "\<forall>v\<in>set (map snd g'). newline \<notin> set v"
         "ends_with_group p \<longrightarrow> rest = [] \<or> hd rest = newline"
      by blast
    have "s = take k s @ drop k s" by simp
    with r(1) have s: "s = build (x # p) (map snd g) @ rest"
      using Named g by simp
    have nl: "newline \<notin> set (take k s)"
      using k by (rule take_le_dot_run)
    have e: "rest = [] \<or> hd rest = newline" if "ends_with_group (x # p)"
    proof (cases p)
      case Nil
      with m have "g' = []" by simp
      from Cons.prems Named Nil have "g = [(n, take (dot_run s) s)]"
        by (simp add: re_match_last_Named del: re_match.simps)
      with g have "take k s = take (dot_run s) s" by simp
      then have "k = dot_run s"
        using k dot_run_le [of s] by (metis length_take min.absorb2 le_trans)
      moreover from r(1) Nil have "rest = drop k s" by simp
      ultimately show ?thesis
        using drop_dot_run [of s] by simp
    next
      case (Cons y q)
      with that have "ends_with_group p" by simp
      with r(4) show ?thesis by simp
    qed
    show ?thesis
      using s e r(2,3) nl g Named by auto
  qed
qed

lemma lit_seps_le_build: "lit_seps p \<le> count_list (build p vs) (CHR ''/'')"
  by (induction p vs rule: build.induct) auto

lemma re_match_seps:
  "re_match p s = Some g \<Longrightarrow> lit_seps p \<le> count_list s (CHR ''/'')"
  using lit_seps_le_build [of p "map snd g"]
  by (auto dest!: re_match_sound)

lemma count_build_free:
  "\<forall>v\<in>set vs. CHR ''/'' \<notin> set v \<Longrightarrow> count_list (build p vs) (CHR ''/'') = lit_seps p"
  by (induction p vs rule: build.induct) auto

lemma count_drop_less:
  "t \<noteq> [] \<Longrightarrow> hd t = c \<Longrightarrow> 0 < j \<Longrightarrow> count_list (drop j t) c < count_list t c"
proof -
  assume a: "t \<noteq> []" "hd t = c" "0 < j"
  then obtain t' where t: "t = c # t'" by (cases t) auto
  from a(3) obtain j' where j: "j = Suc j'" by (cases j) auto
  have "count_list (drop j' t') c \<le> count_list t' c"
    by (metis append_take_drop_id count_list_append le_add2)
  with t j show ?thesis by simp
qed

lemma re_match_build:
  "template p \<Longrightarrow> length vs = length (group_names p) \<Longrightarrow>
   \<forall>v\<in>set vs. CHR ''/'' \<notin> set v \<and> newline \<notin> set v \<Longrightarrow>
   re_match p (build p vs) = Some (zip (group_names p) vs)"
proof (induction p arbitrary: vs rule: template.induct)
  case 1
  then show ?case by simp
next
  case (2 l p)
  then show ?case by simp
next
  case (3 n)
  then obtain v where vs: "vs = [v]" by (cases vs) auto
  with 3 have "dot_run v = length v"
    using dot_run_free [of v "[]"] by (simp add: dot_run_def)
  with vs show ?case by (simp add: re_match_last_Named del: re_match.simps)
next
  case (4 n l p)
  then obtain v vs' where vs: "vs = v # vs'" by (cases vs) auto
  let ?t = "build (Lit l # p) vs'"
  let ?f = "\<lambda>k. case re_match (Lit l # p) (drop k (v @ ?t)) of
                   None \<Rightarrow> None
                 | Some g \<Rightarrow> Some ((n, take k (v @ ?t)) # g)"
  from 4 vs have free: "\<forall>v\<in>set vs'. CHR ''/'' \<notin> set v \<and> newline \<notin> set v"
    and v: "CHR ''/'' \<notin> set v" "newline \<notin> set v"
    and len: "length vs' = length (group_names p)"
    and l: "l \<noteq> []" "hd l = CHR ''/''" and tp: "template p"
    by auto
  have ih: "re_match p (build p vs') = Some (zip (group_names p) vs')"
    using tp len free by (rule "4.IH")
  have here: "?f (length v) = Some (zip (group_names (Named n # Lit l # p)) vs)"
    using ih vs by (simp add: re_match_Lit del: re_match.simps)
  have later: "?f k = None" if "length v < k" for k
  proof -
    have "count_list ?t (CHR ''/'') = lit_seps (Lit l # p)"
      using free by (intro count_build_free) auto
    moreover have "count_list (drop (k - length v) ?t) (CHR ''/'') < count_list ?t (CHR ''/'')"
      using l that by (intro count_drop_less) auto
    moreover have "drop k (v @ ?t) = drop (k - length v) ?t"
      using that by simp
    ultimately have "re_match (Lit l # p) (drop k (v @ ?t)) = None"
      using re_match_seps [of "Lit l # p" "drop k (v @ ?t)"]
      by (cases "re_match (Lit l # p) (drop k (v @ ?t))") auto
    then show ?thesis by simp
  qed
  have "length v \<le> dot_run (v @ ?t)"
    using v(2) by (simp add: dot_run_free)
  then have "first_some ?f (rev [0..<Suc (dot_run (v @ ?t))]) =
      Some (zip (group_names (Named n # Lit l # p)) vs)"
    using here later by (rule first_some_rev_upt)
  then have "re_match (Named n # Lit l # p) (v @ ?t) =
      Some (zip (group_names (Named n # Lit l # p)) vs)"
    unfolding re_match_Named .
  then show ?case
    using vs by (simp del: re_match.simps)
next
  case (5 n m p)
  then show ?case by simp
qed


subsection \<open>The decision pattern\<close>

lemma decision_path_build:
  "decision_path s a ss r g c pc = build DECISION_RE [s, a, ss, r, g, c, pc]"
  by (simp add: decision_path_def DECISION_RE_def)

lemma decision_groups:
  assumes "map fst g = group_names DECISION_RE"
  obtains s a ss r gr c pc where
    "g = [(''session'', s), (''app'', a), (''subsession'', ss), (''round'', r),
          (''group'', gr), (''component'', c), (''participant_code'', pc)]"
proof -
  from assms have
    "\<exists>s a ss r gr c pc.
       g = [(''session'', s), (''app'', a), (''subsession'', ss), (''round'', r),
            (''group'', gr), (''component'', c), (''participant_code'', pc)]"
    by (simp add: DECISION_RE_def map_eq_Cons_conv) force
  then show thesis using that by blast
qed

lemma count_build:
  "length vs = length (group_names p) \<Longrightarrow>
   count_list (build p vs) c =
     (\<Sum>l\<leftarrow>[l. Lit l \<leftarrow> p]. count_list l c) + (\<Sum>v\<leftarrow>vs. count_list v c)"
  by (induction p vs rule: build.induct) auto

lemma lit_seps_sum: "lit_seps p = (\<Sum>l\<leftarrow>[l. Lit l \<leftarrow> p]. count_list l (CHR ''/''))"
  by (induction p rule: lit_seps.induct) auto

lemma decision_match_shape:
  assumes "re_match DECISION_RE path = Some g"
  obtains s a ss r gr c pc rest where
    "g = [(''session'', s), (''app'', a), (''subsession'', ss), (''round'', r),
          (''group'', gr), (''component'', c), (''participant_code'', pc)]"
    "path = decision_path s a ss r gr c pc @ rest"
    "rest = [] \<or> hd rest = newline"
    "\<forall>v\<in>set [s, a, ss, r, gr, c, pc]. newline \<notin> set v"
proof -
  from re_match_sound [OF assms] obtain rest where
    p: "path = build DECISION_RE (map snd g) @ rest"
    and n: "map fst g = group_names DECISION_RE"
    and f: "\<forall>v\<in>set (map snd g). newline \<notin> set v"
    and e: "ends_with_group DECISION_RE \<longrightarrow> rest = [] \<or> hd rest = newline"
    by blast
  from n obtain s a ss r gr c pc where
    g: "g = [(''session'', s), (''app'', a), (''subsession'', ss), (''round'', r),
             (''group'', gr), (''component'', c), (''participant_code'', pc)]"
    by (rule decision_groups)
  have "ends_with_group DECISION_RE"
    by (simp add: DECISION_RE_def)
  with e have "rest = [] \<or> hd rest = newline" by simp
  moreover from p g have "path = decision_path s a ss r gr c pc @ rest"
    by (simp add: decision_path_build)
  moreover from f g have "\<forall>v\<in>set [s, a, ss, r, gr, c, pc]. newline \<notin> set v"
    by simp
  ultimately show thesis
    using g that by blast
qed

section \<open>The claims about the decision pattern\<close>

text \<open>
  Claim C1 as the design document states it (an intermediate capture is never empty and
  never holds a separator) fails: every group of \<open>_DECISION_RE\<close> is \<open>.*\<close>, so on
  the path below \<open>session\<close> is \<open>a/b\<close> and \<open>app\<close> is empty.
\<close>

theorem intermediate_capture_counterexample:
  "re_match DECISION_RE
     ''/session/a/b/app//subsession/1/round/2/group/3/component/chat/decisions/P1'' =
   Some [(''session'', ''a/b''), (''app'', ''''), (''subsession'', ''1''), (''round'', ''2''),
         (''group'', ''3''), (''component'', ''chat''), (''participant_code'', ''P1'')]"
  by code_simp

text \<open>
  Claim C1, amended: when \<open>_DECISION_RE\<close> matches a path, the seven captures hold no
  line feed (they may be empty and may hold separators), the template filled with them
  is the path up to the end of its first line, the trailing capture taking the rest of
  that line; and when the path holds exactly the separators of the template, no capture
  holds a separator, so that each capture is one segment.
\<close>

theorem decision_match_captures:
  assumes "re_match DECISION_RE path = Some g"
  shows "\<exists>s a ss r gr c pc rest.
    g = [(''session'', s), (''app'', a), (''subsession'', ss), (''round'', r),
         (''group'', gr), (''component'', c), (''participant_code'', pc)] \<and>
    path = decision_path s a ss r gr c pc @ rest \<and>
    (rest = [] \<or> hd rest = newline) \<and>
    (\<forall>v\<in>set [s, a, ss, r, gr, c, pc]. newline \<notin> set v) \<and>
    (count_list path (CHR ''/'') = lit_seps DECISION_RE \<longrightarrow>
       (\<forall>v\<in>set [s, a, ss, r, gr, c, pc]. CHR ''/'' \<notin> set v))"
proof -
  from assms obtain s a ss r gr c pc rest where
    g: "g = [(''session'', s), (''app'', a), (''subsession'', ss), (''round'', r),
             (''group'', gr), (''component'', c), (''participant_code'', pc)]"
    and p: "path = decision_path s a ss r gr c pc @ rest"
    and e: "rest = [] \<or> hd rest = newline"
    and f: "\<forall>v\<in>set [s, a, ss, r, gr, c, pc]. newline \<notin> set v"
    by (rule decision_match_shape)
  have "\<forall>v\<in>set [s, a, ss, r, gr, c, pc]. CHR ''/'' \<notin> set v"
    if "count_list path (CHR ''/'') = lit_seps DECISION_RE"
  proof -
    have "count_list path (CHR ''/'') =
        lit_seps DECISION_RE + (\<Sum>v\<leftarrow>[s, a, ss, r, gr, c, pc]. count_list v (CHR ''/'')) +
        count_list rest (CHR ''/'')"
      unfolding p decision_path_build lit_seps_sum
      by (subst count_list_append, subst count_build) (simp_all add: DECISION_RE_def)
    with that have "(\<Sum>v\<leftarrow>[s, a, ss, r, gr, c, pc]. count_list v (CHR ''/'')) = 0"
      by simp
    then show ?thesis
      by (simp add: count_list_0_iff)
  qed
  with g p e f show ?thesis by blast
qed

theorem decision_match_captures_witness:
  "re_match DECISION_RE
     ''/session/S1/app/econ/subsession/1/round/2/group/3/component/chat/decisions/P1'' =
     Some [(''session'', ''S1''), (''app'', ''econ''), (''subsession'', ''1''),
           (''round'', ''2''), (''group'', ''3''), (''component'', ''chat''),
           (''participant_code'', ''P1'')] \<and>
   count_list
     ''/session/S1/app/econ/subsession/1/round/2/group/3/component/chat/decisions/P1''
     (CHR ''/'') = lit_seps DECISION_RE \<and>
   list_all (\<lambda>v. CHR ''/'' \<notin> set v) [''S1'', ''econ'', ''1'', ''2'', ''3'', ''chat'', ''P1'']"
proof -
  have m: "re_match DECISION_RE
     ''/session/S1/app/econ/subsession/1/round/2/group/3/component/chat/decisions/P1'' =
     Some [(''session'', ''S1''), (''app'', ''econ''), (''subsession'', ''1''),
           (''round'', ''2''), (''group'', ''3''), (''component'', ''chat''),
           (''participant_code'', ''P1'')]"
    by code_simp
  have c: "count_list
     ''/session/S1/app/econ/subsession/1/round/2/group/3/component/chat/decisions/P1''
     (CHR ''/'') = lit_seps DECISION_RE"
    by code_simp
  from decision_match_captures [OF m] c m show ?thesis
    by simp
qed

text \<open>
  Claim C2 as the design document states it (any non-empty values without separator
  round-trip) fails for a value that holds a line feed, which \<open>.\<close> does not match: the
  path built from a session code that is a line feed is not matched at all.
\<close>

theorem roundtrip_counterexample:
  "[newline] \<noteq> [] \<and> CHR ''/'' \<notin> set [newline] \<and>
   re_match DECISION_RE (decision_path [newline] ''econ'' ''1'' ''2'' ''3'' ''chat'' ''P1'') = None"
  by code_simp

text \<open>
  Claim C2, amended: for non-empty values that hold neither a separator nor a line feed,
  \<open>_DECISION_RE\<close> matches the path built from them and returns exactly those values
  under their capture names.
\<close>

theorem decision_roundtrip:
  assumes "\<forall>v\<in>set [s, a, ss, r, g, c, pc].
             v \<noteq> [] \<and> CHR ''/'' \<notin> set v \<and> newline \<notin> set v"
  shows "re_match DECISION_RE (decision_path s a ss r g c pc) =
    Some [(''session'', s), (''app'', a), (''subsession'', ss), (''round'', r),
          (''group'', g), (''component'', c), (''participant_code'', pc)]"
proof -
  have "re_match DECISION_RE (build DECISION_RE [s, a, ss, r, g, c, pc]) =
      Some (zip (group_names DECISION_RE) [s, a, ss, r, g, c, pc])"
    using assms by (intro re_match_build) (simp_all add: DECISION_RE_def)
  then show ?thesis
    unfolding decision_path_build by (simp add: DECISION_RE_def)
qed

theorem decision_roundtrip_witness:
  "list_all (\<lambda>v. v \<noteq> [] \<and> CHR ''/'' \<notin> set v \<and> newline \<notin> set v)
     [''S1'', ''econ'', ''1'', ''2'', ''3'', ''chat'', ''P1''] \<and>
   re_match DECISION_RE (decision_path ''S1'' ''econ'' ''1'' ''2'' ''3'' ''chat'' ''P1'') =
    Some [(''session'', ''S1''), (''app'', ''econ''), (''subsession'', ''1''),
          (''round'', ''2''), (''group'', ''3''), (''component'', ''chat''),
          (''participant_code'', ''P1'')]"
proof -
  have h: "\<forall>v\<in>set [''S1'', ''econ'', ''1'', ''2'', ''3'', ''chat'', ''P1''].
      v \<noteq> [] \<and> CHR ''/'' \<notin> set v \<and> newline \<notin> set v"
    by (simp add: newline_def)
  from decision_roundtrip [OF h] h show ?thesis
    by simp
qed


section \<open>The decision handler\<close>

text \<open>
  On the captures of a decision path no key is missing, and the handler is a chain of
  four checks before the one call of \<open>save\<close>.
\<close>

lemma handleDecisionEvent_groups:
  "handleDecisionEvent env
     [(''session'', s), (''app'', a), (''subsession'', ss), (''round'', r),
      (''group'', gr), (''component'', c), (''participant_code'', pc)] dat w =
   (case sessions w s of
      None \<Rightarrow> (None, w)
    | Some sess \<Rightarrow>
        (case py_int env r of
           None \<Rightarrow> (Some ValueError, w)
         | Some ri \<Rightarrow>
             (case py_int env gr of
                None \<Rightarrow> (Some ValueError, w)
              | Some gi \<Rightarrow>
                  (case participants w pc of
                     None \<Rightarrow> (Some ParticipantDoesNotExist, w)
                   | Some part \<Rightarrow>
                       (db_save env
                          \<lparr>d_component = c, d_session = sess, d_subsession = py_int env ss,
                           d_round = ri, d_group = gi, d_participant = part,
                           d_app = a, d_value = dat\<rparr> w,
                        w\<lparr>save_calls := save_calls w @
                          [\<lparr>d_component = c, d_session = sess, d_subsession = py_int env ss,
                            d_round = ri, d_group = gi, d_participant = part,
                            d_app = a, d_value = dat\<rparr>]\<rparr>)))))"
  by (simp add: handleDecisionEvent_def Let_def split: option.splits)

lemma decision_match_groups:
  assumes "re_match DECISION_RE path = Some g"
  obtains s a ss r gr c pc where
    "g = [(''session'', s), (''app'', a), (''subsession'', ss), (''round'', r),
          (''group'', gr), (''component'', c), (''participant_code'', pc)]"
  using assms by (blast elim: decision_match_shape)

lemma example_match:
  "re_match DECISION_RE
     ''/session/S1/app/econ/subsession/1/round/2/group/3/component/chat/decisions/P1'' =
   Some [(''session'', ''S1''), (''app'', ''econ''), (''subsession'', ''1''),
         (''round'', ''2''), (''group'', ''3''), (''component'', ''chat''),
         (''participant_code'', ''P1'')]"
  by code_simp

lemma example_match_abc:
  "re_match DECISION_RE
     ''/session/S1/app/econ/subsession/abc/round/2/group/3/component/chat/decisions/P1'' =
   Some [(''session'', ''S1''), (''app'', ''econ''), (''subsession'', ''abc''),
         (''round'', ''2''), (''group'', ''3''), (''component'', ''chat''),
         (''participant_code'', ''P1'')]"
  by code_simp

lemma example_match_round_abc:
  "re_match DECISION_RE
     ''/session/S1/app/econ/subsession/1/round/abc/group/3/component/chat/decisions/P1'' =
   Some [(''session'', ''S1''), (''app'', ''econ''), (''subsession'', ''1''),
         (''round'', ''abc''), (''group'', ''3''), (''component'', ''chat''),
         (''participant_code'', ''P1'')]"
  by code_simp

lemma ex_int_values:
  "ex_int ''1'' = Some 1" "ex_int ''2'' = Some 2" "ex_int ''3'' = Some 3"
  "ex_int ''abc'' = None"
  by (simp_all add: ex_int_def)

lemma example_tables:
  "sessions (start initial_world) = Map.empty"
  "sessions lonely_world = [''S1'' \<mapsto> 1]"
  "participants lonely_world = Map.empty"
  "sessions ex_world = [''S1'' \<mapsto> 1]"
  "participants ex_world = [''P1'' \<mapsto> 1]"
  "save_calls ex_world = []"
  by (simp_all add: ex_world_def lonely_world_def start_def initial_world_def Let_def)

lemma ex_env_fields:
  "py_int ex_env = ex_int" "json_loads ex_env = ex_loads"
  "db_save ex_env = (\<lambda>d w. None)" "user_handler ex_env = ex_handler"
  by (simp_all add: ex_env_def)

text \<open>
  Every match of the decision pattern has the seven captures in this order (lemma
  \<open>decision_match_groups\<close>), so the claims about the handler are stated for a match
  \<open>g\<close> of that shape.

  Claim C5: on the captures of a decision path, an unknown session code makes the handler
  return without error and without any effect, whatever the other captures are; with a
  known session and an unknown participant code the handler raises (the lookup's
  \<open>DoesNotExist\<close>, or \<open>ValueError\<close> when the round or the group already failed
  to parse) and stores nothing.
\<close>

theorem unknown_session_dropped_unknown_participant_raises:
  assumes "re_match DECISION_RE path = Some g"
    and "g = [(''session'', s), (''app'', a), (''subsession'', ss), (''round'', r),
        (''group'', gr), (''component'', c), (''participant_code'', pc)]"
  shows "(sessions w s = None \<longrightarrow> handleDecisionEvent env g dat w = (None, w)) \<and>
    (sessions w s \<noteq> None \<and> participants w pc = None \<longrightarrow>
       handleDecisionEvent env g dat w =
         (Some (if py_int env r = None \<or> py_int env gr = None
                then ValueError else ParticipantDoesNotExist), w))"
  unfolding assms(2) handleDecisionEvent_groups
  by (auto split: option.splits)

theorem unknown_session_dropped_unknown_participant_raises_witness:
  "sessions (start initial_world) ''S1'' = None \<and>
   handleDecisionEvent ex_env
     [(''session'', ''S1''), (''app'', ''econ''), (''subsession'', ''1''),
      (''round'', ''2''), (''group'', ''3''), (''component'', ''chat''),
      (''participant_code'', ''P1'')] (JInt 7) (start initial_world) =
     (None, start initial_world) \<and>
   sessions lonely_world ''S1'' \<noteq> None \<and> participants lonely_world ''P1'' = None \<and>
   handleDecisionEvent ex_env
     [(''session'', ''S1''), (''app'', ''econ''), (''subsession'', ''1''),
      (''round'', ''2''), (''group'', ''3''), (''component'', ''chat''),
      (''participant_code'', ''P1'')] (JInt 7) lonely_world =
     (Some ParticipantDoesNotExist, lonely_world)"
  using
    unknown_session_dropped_unknown_participant_raises
      [OF example_match refl, where w = "start initial_world" and env = ex_env
        and dat = "JInt 7"]
    unknown_session_dropped_unknown_participant_raises
      [OF example_match refl, where w = lonely_world and env = ex_env
        and dat = "JInt 7"]
  by (simp add: example_tables ex_env_fields ex_int_values)

text \<open>
  Claim C6: with a known session, a subsession capture that does not parse leaves
  \<open>d_subsession\<close> unset and raises nothing: when round, group and participant are
  good the record goes to \<open>save\<close>, whose outcome is the outcome of the handler. A
  round or group capture that does not parse raises \<open>ValueError\<close> and nothing is
  stored.
\<close>

theorem subsession_optional_round_group_required:
  assumes "re_match DECISION_RE path = Some g"
    and "g = [(''session'', s), (''app'', a), (''subsession'', ss), (''round'', r),
        (''group'', gr), (''component'', c), (''participant_code'', pc)]"
  shows "(sessions w s = Some sess \<and> py_int env ss = None \<and> py_int env r = Some ri \<and>
     py_int env gr = Some gi \<and> participants w pc = Some part \<longrightarrow>
       handleDecisionEvent env g dat w =
         (db_save env
            \<lparr>d_component = c, d_session = sess, d_subsession = None, d_round = ri,
             d_group = gi, d_participant = part, d_app = a, d_value = dat\<rparr> w,
          w\<lparr>save_calls := save_calls w @
            [\<lparr>d_component = c, d_session = sess, d_subsession = None, d_round = ri,
             d_group = gi, d_participant = part, d_app = a, d_value = dat\<rparr>]\<rparr>)) \<and>
    (sessions w s = Some sess \<and> (py_int env r = None \<or> py_int env gr = None) \<longrightarrow>
       handleDecisionEvent env g dat w = (Some ValueError, w))"
  unfolding assms(2) handleDecisionEvent_groups
  by (auto split: option.splits)

theorem subsession_optional_round_group_required_witness:
  "handleDecisionEvent ex_env
     [(''session'', ''S1''), (''app'', ''econ''), (''subsession'', ''abc''),
      (''round'', ''2''), (''group'', ''3''), (''component'', ''chat''),
      (''participant_code'', ''P1'')] (JInt 7) ex_world =
     (None,
      ex_world\<lparr>save_calls :=
        [\<lparr>d_component = ''chat'', d_session = 1, d_subsession = None, d_round = 2,
          d_group = 3, d_participant = 1, d_app = ''econ'', d_value = JInt 7\<rparr>]\<rparr>) \<and>
   handleDecisionEvent ex_env
     [(''session'', ''S1''), (''app'', ''econ''), (''subsession'', ''1''),
      (''round'', ''abc''), (''group'', ''3''), (''component'', ''chat''),
      (''participant_code'', ''P1'')] (JInt 7) ex_world =
     (Some ValueError, ex_world)"
  using
    subsession_optional_round_group_required
      [OF example_match_abc refl, where w = ex_world and env = ex_env
        and dat = "JInt 7" and sess = 1 and ri = 2 and gi = 3 and part = 1]
    subsession_optional_round_group_required
      [OF example_match_round_abc refl, where w = ex_world and env = ex_env
        and dat = "JInt 7" and sess = 1]
  by (simp add: example_tables ex_env_fields ex_int_values)

text \<open>
  Claim C9: on the captures of a decision path the handler calls \<open>save\<close> once, with
  the assembled record, when the session is known, round and group parse and the
  participant is known; on every other path (unknown session, round or group that does
  not parse, unknown participant) it calls \<open>save\<close> not at all and leaves the state as
  it was.
\<close>

theorem save_only_after_full_decode:
  assumes "re_match DECISION_RE path = Some g"
    and "g = [(''session'', s), (''app'', a), (''subsession'', ss), (''round'', r),
        (''group'', gr), (''component'', c), (''participant_code'', pc)]"
  shows "save_calls (snd (handleDecisionEvent env g dat w)) =
      save_calls w @
        (case sessions w s of None \<Rightarrow> [] | Some sess \<Rightarrow>
           (case py_int env r of None \<Rightarrow> [] | Some ri \<Rightarrow>
              (case py_int env gr of None \<Rightarrow> [] | Some gi \<Rightarrow>
                 (case participants w pc of None \<Rightarrow> [] | Some part \<Rightarrow>
                    [\<lparr>d_component = c, d_session = sess, d_subsession = py_int env ss, d_round = ri,
             d_group = gi, d_participant = part, d_app = a, d_value = dat\<rparr>])))) \<and>
    (sessions w s = None \<or> py_int env r = None \<or> py_int env gr = None \<or>
     participants w pc = None \<longrightarrow> snd (handleDecisionEvent env g dat w) = w)"
  unfolding assms(2) handleDecisionEvent_groups
  by (auto split: option.splits)

theorem save_only_after_full_decode_witness:
  "save_calls (snd (handleDecisionEvent ex_env
     [(''session'', ''S1''), (''app'', ''econ''), (''subsession'', ''1''),
      (''round'', ''2''), (''group'', ''3''), (''component'', ''chat''),
      (''participant_code'', ''P1'')] (JInt 7) ex_world)) =
     [\<lparr>d_component = ''chat'', d_session = 1, d_subsession = Some 1, d_round = 2,
       d_group = 3, d_participant = 1, d_app = ''econ'', d_value = JInt 7\<rparr>] \<and>
   participants lonely_world ''P1'' = None \<and>
   snd (handleDecisionEvent ex_env
     [(''session'', ''S1''), (''app'', ''econ''), (''subsession'', ''1''),
      (''round'', ''2''), (''group'', ''3''), (''component'', ''chat''),
      (''participant_code'', ''P1'')] (JInt 7) lonely_world) = lonely_world"
  using
    save_only_after_full_decode [OF example_match refl, where w = ex_world and env = ex_env
        and dat = "JInt 7"]
    save_only_after_full_decode [OF example_match refl, where w = lonely_world and env = ex_env
        and dat = "JInt 7"]
  by (simp add: example_tables ex_env_fields ex_int_values)


section \<open>The registry and the event loop\<close>

lemma collect_matchAll:
  "subscript payload ''path'' = Inr (JStr path) \<Longrightarrow> subscript payload ''data'' = Inr d \<Longrightarrow>
   collect registry payload acc = Inr (acc @ matchAll_spec registry path d)"
proof (induction registry arbitrary: acc)
  case Nil
  then show ?case by (simp add: matchAll_spec_def map_filter_simps)
next
  case (Cons x registry)
  obtain regex h where x: "x = (regex, h)" by (cases x)
  show ?case
  proof (cases "regex path")
    case None
    with Cons x show ?thesis
      by (simp add: matchAll_spec_def map_filter_simps)
  next
    case (Some g)
    with Cons.prems x Cons.IH [OF Cons.prems, of "acc @ [(h, g, d)]"] show ?thesis
      by (simp add: matchAll_spec_def map_filter_simps)
  qed
qed

lemma collect_path:
  "collect registry payload acc = Inr ms \<Longrightarrow> registry \<noteq> [] \<Longrightarrow>
   \<exists>path. subscript payload ''path'' = Inr (JStr path)"
proof (cases registry)
  case Nil
  assume "registry \<noteq> []"
  with Nil show ?thesis by simp
next
  case (Cons x rest)
  assume c: "collect registry payload acc = Inr ms"
  obtain regex h where x: "x = (regex, h)" by (cases x)
  show ?thesis
  proof (cases "subscript payload ''path''")
    case (Inl e)
    with c Cons x show ?thesis by simp
  next
    case (Inr p)
    with c Cons x show ?thesis
      by (cases p) simp_all
  qed
qed

lemma collect_Nil: "collect registry payload [] = Inr ms \<Longrightarrow> ms \<noteq> [] \<Longrightarrow> registry \<noteq> []"
  by (cases registry) auto

lemma dispatch_total:
  "subscript payload ''path'' = Inr p \<Longrightarrow>
   fst (dispatch env payload ms w) = None \<and>
   invocations (fst (snd (dispatch env payload ms w))) = ms"
proof (induction ms arbitrary: w)
  case Nil
  then show ?case by simp
next
  case (Cons x ms)
  obtain f m d where x: "x = (f, m, d)" by (cases x)
  obtain r w' where i: "invoke env f m d w = (r, w')" by (cases "invoke env f m d w")
  obtain r' tr w'' where d: "dispatch env payload ms w' = (r', tr, w'')"
    by (cases "dispatch env payload ms w'")
  from Cons.IH [OF Cons.prems, of w'] d have "r' = None" "invocations tr = ms"
    by simp_all
  with x i d Cons.prems show ?case
    by (cases r) simp_all
qed



lemma process_put_collected:
  assumes "json_loads env dat = Some payload"
    and "collect (matchers (threads w self)) payload [] = Inr ms"
    and "subscript payload ''path'' = Inr p"
  shows "process_put env self dat w =
    (None,
     (if ms = [] then [LogWarning p] else []) @ fst (snd (dispatch env payload ms w)),
     snd (snd (dispatch env payload ms w)))"
proof -
  show ?thesis
  proof (cases "ms = []")
    case True
    with assms show ?thesis
      by (simp add: process_put_def)
  next
    case False
    obtain r tr w' where d: "dispatch env payload ms w = (r, tr, w')"
      by (cases "dispatch env payload ms w")
    with dispatch_total [OF assms(3), of env ms w] assms False show ?thesis
      by (simp add: process_put_def)
  qed
qed

lemma process_put_invocations:
  "invocations (fst (snd (process_put env self dat w))) =
   (case json_loads env dat of
      None \<Rightarrow> []
    | Some payload \<Rightarrow>
        (case collect (matchers (threads w self)) payload [] of
           Inl e \<Rightarrow> []
         | Inr ms \<Rightarrow> ms))"
proof (cases "json_loads env dat")
  case None
  then show ?thesis by (simp add: process_put_def)
next
  case (Some payload)
  show ?thesis
  proof (cases "collect (matchers (threads w self)) payload []")
    case (Inl e)
    with Some show ?thesis by (simp add: process_put_def)
  next
    case (Inr ms)
    show ?thesis
    proof (cases "subscript payload ''path''")
      case (Inl e)
      with Inr have "ms = []"
        using collect_Nil [OF Inr] collect_path [OF Inr] by fastforce
      with Some Inr Inl show ?thesis by (simp add: process_put_def)
    next
      case p: (Inr p)
      from process_put_collected [OF Some Inr p] dispatch_total [OF p, of env ms w] Some Inr
      show ?thesis by simp
    qed
  qed
qed

lemma run_loop_put:
  "event m = ''put'' \<Longrightarrow> process_put env self (data m) w = (None, tr, w') \<Longrightarrow>
   run_loop env self (m # rest) w =
     (fst (run_loop env self rest w'), tr @ fst (snd (run_loop env self rest w')),
      snd (snd (run_loop env self rest w')))"
  by (simp add: case_prod_beta)


section \<open>The claims about the registry and the loop\<close>

lemma ex_loads_values:
  "ex_loads ''not json'' = None"
  "ex_loads pathless_event = Some (JObj [(''data'', JInt 7)])"
  "ex_loads other_event = Some (JObj [(''path'', JStr ''/log/S1''), (''data'', JInt 7)])"
  "ex_loads decision_event =
     Some (JObj [(''path'', JStr
       ''/session/S1/app/econ/subsession/1/round/2/group/3/component/chat/decisions/P1''),
       (''data'', JInt 7)])"
  by (simp_all add: ex_loads_def decision_event_def other_event_def pathless_event_def)

lemma example_registry:
  "watchThread ex_world = Some 0"
  "matchers (threads ex_world 0) = [(re_match DECISION_RE, HandleDecisionEvent)]"
  "matchers (threads lonely_world 0) = [(re_match DECISION_RE, HandleDecisionEvent)]"
  "fbURL (threads ex_world 0) = ''https://otree.firebaseio.com/.json''"
  by (simp_all add: ex_world_def lonely_world_def start_def initial_world_def Let_def
      Thread_init_def)

lemma example_no_match: "re_match DECISION_RE ''/log/S1'' = None"
  by code_simp

text \<open>
  Claim C3 does not hold of the code: \<open>json.loads(msg.data)\<close> and
  \<open>message_payload['path']\<close> stand outside the \<open>try\<close> of \<open>run\<close>, so a
  payload that is not JSON, or one without the key \<open>path\<close>, raises out of the loop.
  The run below ends at the bad message with the exception; the decision event that
  follows it is never dispatched.
\<close>

theorem envelope_failure_ends_run:
  "run ex_env 0
     [\<lparr>event = ''put'', data = ''not json''\<rparr>, \<lparr>event = ''put'', data = decision_event\<rparr>]
     ex_world =
     (Some ValueError, [LogInfo ''https://otree.firebaseio.com/.json''], ex_world) \<and>
   run ex_env 0
     [\<lparr>event = ''put'', data = pathless_event\<rparr>, \<lparr>event = ''put'', data = decision_event\<rparr>]
     ex_world =
     (Some (KeyError ''path''), [LogInfo ''https://otree.firebaseio.com/.json''], ex_world)"
  by (simp add: run_def process_put_def ex_env_fields ex_loads_values example_registry
      subscript_def)



lemma invoke_handler_function:
  "invoke env f g d w = handler_function env f g d w"
  by (cases f) (simp_all add: invoke_def handler_function_def)

lemma dispatch_spec:
  "subscript payload ''path'' = Inr (JStr path) \<Longrightarrow>
   dispatch env payload ms w =
     (None, handlers_trace_spec env path ms w, handlers_state_spec env ms w)"
proof (induction ms arbitrary: w)
  case Nil
  then show ?case by (simp add: handlers_state_spec_def)
next
  case (Cons x ms)
  obtain f g d where x: "x = (f, g, d)" by (cases x)
  obtain r w' where i: "handler_function env f g d w = (r, w')"
    by (cases "handler_function env f g d w")
  from Cons.IH [OF Cons.prems, of w'] have
    ih: "dispatch env payload ms w' =
      (None, handlers_trace_spec env path ms w', handlers_state_spec env ms w')" .
  have st: "handlers_state_spec env (x # ms) w = handlers_state_spec env ms w'"
    using x i by (simp add: handlers_state_spec_def)
  show ?case
  proof (cases r)
    case None
    with x i ih st show ?thesis
      by (simp add: invoke_handler_function)
  next
    case (Some e)
    with x i ih st Cons.prems show ?thesis
      by (simp add: invoke_handler_function)
  qed
qed

lemma invocations_trace_spec:
  "invocations (handlers_trace_spec env path ms w) = ms"
proof (induction ms arbitrary: w)
  case Nil
  then show ?case by simp
next
  case (Cons x ms)
  obtain f g d where x: "x = (f, g, d)" by (cases x)
  show ?case
    unfolding x using Cons.IH
    by (cases "fst (handler_function env f g d w)") simp_all
qed

text \<open>
  Claim C7: for an event whose payload has a path and data, the body of the loop raises
  nothing and runs exactly the handlers that \<open>matchAll\<close> of the design document
  gives for the registry of the thread, in registration order: its calls are those
  matches, the state it leaves is the state after those handler functions have run one
  after the other, and its actions are those calls, each followed by the log record of
  its exception if it raised. When there is no match it logs one warning with the path,
  calls nothing and changes nothing. In both cases the loop goes on with the next
  message.
\<close>

theorem matched_handlers_in_registration_order:
  assumes "event m = ''put''"
    and "json_loads env (data m) = Some payload"
    and "subscript payload ''path'' = Inr (JStr path)"
    and "subscript payload ''data'' = Inr d"
  shows "fst (process_put env self (data m) w) = None \<and>
    invocations (fst (snd (process_put env self (data m) w))) =
      matchAll_spec (matchers (threads w self)) path d \<and>
    snd (snd (process_put env self (data m) w)) =
      handlers_state_spec env (matchAll_spec (matchers (threads w self)) path d) w \<and>
    fst (snd (process_put env self (data m) w)) =
      (if matchAll_spec (matchers (threads w self)) path d = []
       then [LogWarning (JStr path)] else []) @
      handlers_trace_spec env path (matchAll_spec (matchers (threads w self)) path d) w \<and>
    (matchAll_spec (matchers (threads w self)) path d = [] \<longrightarrow>
       process_put env self (data m) w = (None, [LogWarning (JStr path)], w)) \<and>
    run_loop env self (m # rest) w =
      (fst (run_loop env self rest (snd (snd (process_put env self (data m) w)))),
       fst (snd (process_put env self (data m) w)) @
         fst (snd (run_loop env self rest (snd (snd (process_put env self (data m) w))))),
       snd (snd (run_loop env self rest (snd (snd (process_put env self (data m) w))))))"
proof -
  let ?ms = "matchAll_spec (matchers (threads w self)) path d"
  have c: "collect (matchers (threads w self)) payload [] = Inr ?ms"
    using collect_matchAll [OF assms(3) assms(4), of "matchers (threads w self)" "[]"]
    by simp
  have p: "process_put env self (data m) w =
      (None,
       (if ?ms = [] then [LogWarning (JStr path)] else []) @ handlers_trace_spec env path ?ms w,
       handlers_state_spec env ?ms w)"
    using process_put_collected [OF assms(2) c assms(3)]
      dispatch_spec [OF assms(3), of env ?ms w]
    by simp
  have i: "invocations (fst (snd (process_put env self (data m) w))) = ?ms"
    using process_put_invocations [of env self "data m" w] assms(2) c by simp
  have e: "?ms = [] \<longrightarrow> process_put env self (data m) w = (None, [LogWarning (JStr path)], w)"
    using p by (simp add: handlers_state_spec_def)
  have "process_put env self (data m) w =
      (None, fst (snd (process_put env self (data m) w)),
       snd (snd (process_put env self (data m) w)))"
    using p by simp
  from run_loop_put [OF assms(1) this, of rest] p i e show ?thesis
    by simp
qed

theorem matched_handlers_in_registration_order_witness:
  "fst (snd (process_put ex_env 0 decision_event
      (registered ''/session/'' (UserHandler 2) ex_world))) =
     [Invoke HandleDecisionEvent
        [(''session'', ''S1''), (''app'', ''econ''), (''subsession'', ''1''),
         (''round'', ''2''), (''group'', ''3''), (''component'', ''chat''),
         (''participant_code'', ''P1'')] (JInt 7),
      Invoke (UserHandler 2) [] (JInt 7)] \<and>
   save_calls (snd (snd (process_put ex_env 0 decision_event
      (registered ''/session/'' (UserHandler 2) ex_world)))) =
     [\<lparr>d_component = ''chat'', d_session = 1, d_subsession = Some 1, d_round = 2,
       d_group = 3, d_participant = 1, d_app = ''econ'', d_value = JInt 7\<rparr>] \<and>
   map snd (matchers (threads (snd (snd (process_put ex_env 0 decision_event
      (registered ''/session/'' (UserHandler 2) ex_world)))) 0)) =
     [HandleDecisionEvent, UserHandler 2, UserHandler 3] \<and>
   process_put ex_env 0 other_event ex_world =
     (None, [LogWarning (JStr ''/log/S1'')], ex_world)"
proof -
  let ?w = "registered ''/session/'' (UserHandler 2) ex_world"
  let ?path = "''/session/S1/app/econ/subsession/1/round/2/group/3/component/chat/decisions/P1''"
  let ?payload = "JObj [(''path'', JStr ?path), (''data'', JInt 7)]"
  let ?other = "JObj [(''path'', JStr ''/log/S1''), (''data'', JInt 7)]"
  let ?g = "[(''session'', ''S1''), (''app'', ''econ''), (''subsession'', ''1''),
        (''round'', ''2''), (''group'', ''3''), (''component'', ''chat''),
        (''participant_code'', ''P1'')]"
  let ?d = "\<lparr>d_component = ''chat'', d_session = 1, d_subsession = Some 1, d_round = 2,
       d_group = 3, d_participant = 1, d_app = ''econ'', d_value = JInt 7\<rparr>"
  let ?ms = "[(HandleDecisionEvent, ?g, JInt 7), (UserHandler 2, [], JInt 7)]"
  let ?m = "\<lparr>event = ''put'', data = decision_event\<rparr>"
  let ?o = "\<lparr>event = ''put'', data = other_event\<rparr>"
  have reg: "matchers (threads ?w 0) =
      [(re_match DECISION_RE, HandleDecisionEvent), (re_match [Lit ''/session/''], UserHandler 2)]"
    by (simp add: registered_def register_path_def ex_compile_def ex_world_def start_def
        initial_world_def Let_def Thread_init_def)
  have tables: "sessions ?w = [''S1'' \<mapsto> 1]" "participants ?w = [''P1'' \<mapsto> 1]"
    "save_calls ?w = []" "watchThread ?w = Some 0"
    by (simp_all add: registered_def register_path_def ex_compile_def ex_world_def
        start_def initial_world_def Let_def)
  have lit: "re_match [Lit ''/session/''] ?path = Some []"
    by code_simp
  have all: "matchAll_spec (matchers (threads ?w 0)) ?path (JInt 7) = ?ms"
    unfolding reg
    by (simp add: matchAll_spec_def map_filter_simps example_match lit del: re_match.simps)
  have none: "matchAll_spec (matchers (threads ex_world 0)) ''/log/S1'' (JInt 7) = []"
    by (simp add: example_registry matchAll_spec_def map_filter_simps example_no_match
        del: re_match.simps)
  have first: "handler_function ex_env HandleDecisionEvent ?g (JInt 7) ?w =
      (None, ?w\<lparr>save_calls := [?d]\<rparr>)"
    by (simp add: handler_function_def handleDecisionEvent_groups tables ex_env_fields
        ex_int_values)
  have c: "ex_compile ''/session/'' = Some (re_match [Lit ''/session/''])"
    by (simp add: ex_compile_def)
  have second: "handler_function ex_env (UserHandler 2) [] (JInt 7) (?w\<lparr>save_calls := [?d]\<rparr>) =
      (None, (?w\<lparr>save_calls := [?d]\<rparr>)\<lparr>threads := (threads ?w)
         (0 := (threads ?w 0)\<lparr>matchers := matchers (threads ?w 0) @
            [(re_match [Lit ''/session/''], UserHandler 3)]\<rparr>)\<rparr>)"
    by (simp add: handler_function_def ex_env_fields ex_handler_def register_path_def tables c
        del: re_match.simps)
  have tr: "handlers_trace_spec ex_env ?path ?ms ?w =
      [Invoke HandleDecisionEvent ?g (JInt 7), Invoke (UserHandler 2) [] (JInt 7)]"
    by (simp add: first second del: re_match.simps One_nat_def)
  have st: "handlers_state_spec ex_env ?ms ?w =
      (?w\<lparr>save_calls := [?d]\<rparr>)\<lparr>threads := (threads ?w)
         (0 := (threads ?w 0)\<lparr>matchers := matchers (threads ?w 0) @
            [(re_match [Lit ''/session/''], UserHandler 3)]\<rparr>)\<rparr>"
    by (simp add: handlers_state_spec_def first second del: re_match.simps One_nat_def)
  have m: "event ?m = ''put''" "json_loads ex_env (data ?m) = Some ?payload"
    "subscript ?payload ''path'' = Inr (JStr ?path)" "subscript ?payload ''data'' = Inr (JInt 7)"
    by (simp_all add: ex_env_fields ex_loads_values subscript_def)
  have o: "event ?o = ''put''" "json_loads ex_env (data ?o) = Some ?other"
    "subscript ?other ''path'' = Inr (JStr ''/log/S1'')"
    "subscript ?other ''data'' = Inr (JInt 7)"
    by (simp_all add: ex_env_fields ex_loads_values subscript_def)
  from matched_handlers_in_registration_order [OF m, of 0 ?w "[]"]
    matched_handlers_in_registration_order [OF o, of 0 ex_world "[]"] all none tr st reg
  show ?thesis by (simp del: re_match.simps)
qed

text \<open>
  Claim C8 as the design document states it (registration succeeds before as well as
  after the watcher has been started) fails: the registry is an attribute of the thread
  object that \<open>start()\<close> creates, and before \<open>start()\<close> the global
  \<open>_watchThread\<close> is unbound, so \<open>register_path\<close> of a well-formed pattern raises
  \<open>NameError\<close>.
\<close>

theorem register_before_start_counterexample:
  "ex_compile ''/session/'' = Some (re_match [Lit ''/session/'']) \<and>
   register_path ex_compile ''/session/'' (UserHandler 3) initial_world = Inl NameError"
  by (simp add: ex_compile_def register_path_def initial_world_def)

text \<open>
  Claim C8, amended: for a pattern that compiles, \<open>register_path\<close> succeeds in every
  state in which \<open>_watchThread\<close> is bound, in particular in every state that
  \<open>start()\<close> leaves, and appends the registration at the end of the registry of that
  thread, whatever the registry holds, leaving everything else as it was; while
  \<open>_watchThread\<close> is unbound it raises \<open>NameError\<close>.
\<close>

theorem register_path_appends_once_started:
  assumes "re_compile path = Some regex"
  shows "(watchThread w = Some r \<longrightarrow>
      register_path re_compile path h w =
        Inr (w\<lparr>threads := (threads w)
               (r := (threads w r)\<lparr>matchers := matchers (threads w r) @ [(regex, h)]\<rparr>)\<rparr>)) \<and>
    (case register_path re_compile path h (start w) of
       Inl e \<Rightarrow> False
     | Inr w' \<Rightarrow>
         watchThread w' = Some (next_thread w) \<and>
         matchers (threads w' (next_thread w)) =
           [(re_match DECISION_RE, HandleDecisionEvent), (regex, h)]) \<and>
    (watchThread w = None \<longrightarrow> register_path re_compile path h w = Inl NameError)"
  using assms
  by (simp add: register_path_def start_def Let_def Thread_init_def)

theorem register_path_appends_once_started_witness:
  "watchThread ex_world = Some 0 \<and>
   register_path ex_compile ''/session/'' (UserHandler 3) ex_world =
     Inr (ex_world\<lparr>threads := (threads ex_world)
            (0 := (threads ex_world 0)
               \<lparr>matchers := [(re_match DECISION_RE, HandleDecisionEvent),
                              (re_match [Lit ''/session/''], UserHandler 3)]\<rparr>)\<rparr>) \<and>
   watchThread initial_world = None \<and>
   register_path ex_compile ''/session/'' (UserHandler 3) initial_world = Inl NameError"
proof -
  have c: "ex_compile ''/session/'' = Some (re_match [Lit ''/session/''])"
    by (simp add: ex_compile_def)
  have n: "watchThread initial_world = None"
    by (simp add: initial_world_def)
  note t = register_path_appends_once_started
    [where re_compile = ex_compile and path = "''/session/''"
       and regex = "re_match [Lit ''/session/'']" and h = "UserHandler 3" and r = 0, OF c]
  from t [of ex_world] t [of initial_world] n
  show ?thesis
    by (simp add: example_registry del: re_match.simps)
qed

text \<open>
  Claim C10: the handlers called for one event are the matches collected from the
  registry as it was when the event arrived; what the handlers do, including a handler
  that registers a new path while it runs, does not change them. Two deployments that
  differ only in their handler functions, in \<open>int\<close> and in \<open>save\<close> call the same
  handlers with the same captures and data, in the same order.
\<close>

theorem handlers_fixed_before_dispatch:
  assumes "json_loads env' = json_loads env"
  shows "invocations (fst (snd (process_put env' self dat w))) =
      invocations (fst (snd (process_put env self dat w))) \<and>
    invocations (fst (snd (process_put env self dat w))) =
      (case json_loads env dat of
         None \<Rightarrow> []
       | Some payload \<Rightarrow>
           (case collect (matchers (threads w self)) payload [] of
              Inl e \<Rightarrow> []
            | Inr ms \<Rightarrow> ms))"
  using assms by (simp add: process_put_invocations)

theorem handlers_fixed_before_dispatch_witness:
  "json_loads quiet_env = json_loads ex_env \<and>
   invocations (fst (snd (process_put ex_env 0 decision_event
      (registered ''/session/'' (UserHandler 2) ex_world)))) =
     [(HandleDecisionEvent,
       [(''session'', ''S1''), (''app'', ''econ''), (''subsession'', ''1''),
        (''round'', ''2''), (''group'', ''3''), (''component'', ''chat''),
        (''participant_code'', ''P1'')], JInt 7),
      (UserHandler 2, [], JInt 7)] \<and>
   invocations (fst (snd (process_put quiet_env 0 decision_event
      (registered ''/session/'' (UserHandler 2) ex_world)))) =
     [(HandleDecisionEvent,
       [(''session'', ''S1''), (''app'', ''econ''), (''subsession'', ''1''),
        (''round'', ''2''), (''group'', ''3''), (''component'', ''chat''),
        (''participant_code'', ''P1'')], JInt 7),
      (UserHandler 2, [], JInt 7)] \<and>
   map snd (matchers (threads (snd (snd (process_put ex_env 0 decision_event
      (registered ''/session/'' (UserHandler 2) ex_world)))) 0)) =
     [HandleDecisionEvent, UserHandler 2, UserHandler 3]"
proof -
  let ?w = "registered ''/session/'' (UserHandler 2) ex_world"
  let ?path = "''/session/S1/app/econ/subsession/1/round/2/group/3/component/chat/decisions/P1''"
  let ?payload = "JObj [(''path'', JStr ?path), (''data'', JInt 7)]"
  let ?g = "[(''session'', ''S1''), (''app'', ''econ''), (''subsession'', ''1''),
          (''round'', ''2''), (''group'', ''3''), (''component'', ''chat''),
          (''participant_code'', ''P1'')]"
  have q: "json_loads quiet_env = json_loads ex_env"
    by (simp add: quiet_env_def)
  have reg: "matchers (threads ?w 0) =
      [(re_match DECISION_RE, HandleDecisionEvent), (re_match [Lit ''/session/''], UserHandler 2)]"
    by (simp add: registered_def register_path_def ex_compile_def ex_world_def start_def
        initial_world_def Let_def Thread_init_def)
  have lit: "re_match [Lit ''/session/''] ?path = Some []"
    by code_simp
  have c: "collect (matchers (threads ?w 0)) ?payload [] =
      Inr [(HandleDecisionEvent, ?g, JInt 7), (UserHandler 2, [], JInt 7)]"
    unfolding reg by (simp add: subscript_def example_match lit del: re_match.simps)
  have l: "json_loads ex_env decision_event = Some ?payload"
    by (simp add: ex_env_fields ex_loads_values)
  have grown: "map snd (matchers (threads (snd (snd (process_put ex_env 0 decision_event ?w))) 0)) =
     [HandleDecisionEvent, UserHandler 2, UserHandler 3]"
    by code_simp
  from handlers_fixed_before_dispatch [OF q, of 0 decision_event ?w] q l c grown
  show ?thesis by simp
qed


end
